theory Spec2Isabelle
  imports
    Complex_Main
    "HOL-Library.Char_ord"
    "HOL-Library.List_Lexorder"
    "HOL-Library.Product_Lexorder"
    "HOL-Library.Log_Nat"
begin

section \<open>Data model\<close>

text \<open>
  A metadata value of the collection is a string, an integer or the null value. Of Python's
  values these are the ones the tracked fields take (\<open>YearOfRelease\<close> is stored as a
  string or as an integer); on them Python's equality and hashing of dictionary keys is
  structural equality. A metadata record is a dictionary from field names to values, and
  \<open>metadata.get(key, default)\<close> is \<open>dict_get_field\<close>: the default stands in only for
  an absent key, never for a key that is present with the null value. Every record of the
  collection has such a dictionary.
\<close>

datatype pyval = PStr string | PInt int | PNone

type_synonym metadata = "string \<rightharpoonup> pyval"

definition dict_get_field :: "metadata \<Rightarrow> string \<Rightarrow> pyval \<Rightarrow> pyval" where
  "dict_get_field m k d = (case m k of None \<Rightarrow> d | Some v \<Rightarrow> v)"

text \<open>
  The exceptions that the modelled code can raise: a division by zero, \<open>max\<close> of an empty
  sequence and the format code \<open>s\<close> applied to an integer (\<open>ValueError\<close>), and a format
  specification applied to \<open>None\<close> (\<open>TypeError\<close>).
\<close>

datatype error = ZeroDivisionError | ValueError | TypeError

subsection \<open>Strings of integers\<close>

text \<open>
  \<open>str(year)\<close>: a string is itself, an integer is its decimal numeral, \<open>None\<close> is the
  word \<open>None\<close>.
\<close>

fun str_nat :: "nat \<Rightarrow> string" where
  "str_nat n =
     (if n < 10 then [char_of (48 + n)]
      else str_nat (n div 10) @ [char_of (48 + n mod 10)])"

declare str_nat.simps [simp del]

definition str_int :: "int \<Rightarrow> string" where
  "str_int i = (if i < 0 then CHR ''-'' # str_nat (nat (- i)) else str_nat (nat i))"

fun py_str :: "pyval \<Rightarrow> string" where
  "py_str (PStr s) = s"
| "py_str (PInt i) = str_int i"
| "py_str PNone = ''None''"

text \<open>
  \<open>y.isdigit()\<close> on a string of ASCII characters: the string is not empty and each of its
  characters is a decimal digit. \<open>int(y)\<close> on such a string is its decimal value; the
  bound that the interpreter puts on the number of digits it converts is not modelled.
\<close>

definition is_digit_char :: "char \<Rightarrow> bool" where
  "is_digit_char c = (CHR ''0'' \<le> c \<and> c \<le> CHR ''9'')"

definition isdigit :: "string \<Rightarrow> bool" where
  "isdigit s = (s \<noteq> [] \<and> list_all is_digit_char s)"

definition digit_value :: "char \<Rightarrow> nat" where
  "digit_value c = of_char c - 48"

definition int_of_digits :: "string \<Rightarrow> nat" where
  "int_of_digits s = foldl (\<lambda>a c. 10 * a + digit_value c) 0 s"

subsection \<open>Frequency tables\<close>

text \<open>
  A frequency table is a Python dictionary from keys to counts. A dictionary keeps its keys
  in the order of their first insertion, and the code depends on that order (it sorts the
  items stably and cuts the sorted items), so a table is the list of its items.
  \<open>dict_get\<close> is \<open>d.get(k, default)\<close>, \<open>dict_set\<close> is \<open>d[k] = v\<close>: the value of a key
  already present is replaced where the key stands, a new key goes to the end.
\<close>

type_synonym 'k table = "('k \<times> nat) list"

fun dict_get :: "'k table \<Rightarrow> 'k \<Rightarrow> nat \<Rightarrow> nat" where
  "dict_get [] k d = d"
| "dict_get ((k', v) # t) k d = (if k' = k then v else dict_get t k d)"

fun dict_set :: "'k table \<Rightarrow> 'k \<Rightarrow> nat \<Rightarrow> 'k table" where
  "dict_set [] k v = [(k, v)]"
| "dict_set ((k', v') # t) k v =
     (if k' = k then (k', v) # t else (k', v') # dict_set t k v)"

text \<open>\<open>d[k] = d.get(k, 0) + 1\<close>, the counting step of the aggregation loop.\<close>

definition bump :: "'k \<Rightarrow> 'k table \<Rightarrow> 'k table" where
  "bump k t = dict_set t k (dict_get t k 0 + 1)"

text \<open>\<open>dict(items)\<close> inserts the items from left to right into an empty dictionary.\<close>

definition py_dict :: "('k \<times> nat) list \<Rightarrow> 'k table" where
  "py_dict its = fold (\<lambda>(k, v) d. dict_set d k v) its []"

text \<open>
  \<open>sorted(items, key=lambda x: x[1], reverse=True)\<close>: Python's sort is stable, and with
  \<open>reverse=True\<close> it sorts the reversed list in ascending order and reverses the result,
  so that items of equal count keep their order. \<open>sort_key\<close> is a stable sort.
\<close>

definition sorted_by_count_desc :: "'k table \<Rightarrow> ('k \<times> nat) list" where
  "sorted_by_count_desc t = rev (sort_key snd (rev t))"

text \<open>
  \<open>sorted(years.items())\<close> compares the items as tuples: by key, in the order of the
  strings' characters, then by count.
\<close>

definition sorted_items :: "string table \<Rightarrow> (string \<times> nat) list" where
  "sorted_items t = sort t"

section \<open>The aggregator: \<open>get_collection_stats\<close>\<close>

text \<open>
  The four dictionaries that the loop over \<open>all_docs['metadatas']\<close> fills, and one pass of
  its body.
\<close>

record counts =
  c_platforms :: "pyval table"
  c_years :: "string table"
  c_genres :: "pyval table"
  c_publishers :: "pyval table"

definition no_counts :: counts where
  "no_counts = \<lparr>c_platforms = [], c_years = [], c_genres = [], c_publishers = []\<rparr>"

definition platform_of :: "metadata \<Rightarrow> pyval" where
  "platform_of m = dict_get_field m ''Platform'' (PStr ''Unknown'')"

definition year_of :: "metadata \<Rightarrow> string" where
  "year_of m = py_str (dict_get_field m ''YearOfRelease'' (PStr ''Unknown''))"

definition genre_of :: "metadata \<Rightarrow> pyval" where
  "genre_of m = dict_get_field m ''Genre'' (PStr ''Unknown'')"

definition publisher_of :: "metadata \<Rightarrow> pyval" where
  "publisher_of m = dict_get_field m ''Publisher'' (PStr ''Unknown'')"

definition count_metadata :: "metadata \<Rightarrow> counts \<Rightarrow> counts" where
  "count_metadata m c =
     \<lparr>c_platforms = bump (platform_of m) (c_platforms c),
      c_years = bump (year_of m) (c_years c),
      c_genres = bump (genre_of m) (c_genres c),
      c_publishers = bump (publisher_of m) (c_publishers c)\<rparr>"

definition count_all :: "metadata list \<Rightarrow> counts" where
  "count_all docs = fold count_metadata docs no_counts"

text \<open>
  The statistics are a dictionary with the keys \<open>total_games\<close>, \<open>platforms\<close>, \<open>years\<close>,
  \<open>genres\<close> and \<open>publishers\<close>, each of which may be missing: a field is \<open>None\<close> when the
  dictionary has no such key. The collection is the list of its records' metadata
  (\<open>count()\<close> is its length, \<open>get()['metadatas']\<close> the list), or \<open>None\<close> when the store
  has no collection of that name.
\<close>

record stats =
  total_games :: "nat option"
  platforms :: "pyval table option"
  years :: "string table option"
  genres :: "pyval table option"
  publishers :: "pyval table option"

definition empty_stats :: stats where
  "empty_stats =
     \<lparr>total_games = None, platforms = None, years = None, genres = None,
      publishers = None\<rparr>"

definition get_collection_stats :: "metadata list option \<Rightarrow> stats" where
  "get_collection_stats collection =
     (case collection of
        None \<Rightarrow> empty_stats
      | Some docs \<Rightarrow>
          (if length docs > 0 then
             (let c = count_all docs in
              \<lparr>total_games = Some (length docs),
               platforms = Some (py_dict (sorted_by_count_desc (c_platforms c))),
               years = Some (py_dict (sorted_items (c_years c))),
               genres = Some (py_dict (sorted_by_count_desc (c_genres c))),
               publishers = Some (py_dict (take 10 (sorted_by_count_desc (c_publishers c))))\<rparr>)
           else empty_stats\<lparr>total_games := Some 0\<rparr>))"

section \<open>Floating-point arithmetic of the bar scaling\<close>

text \<open>
  The bar of a row is \<open>int((count / max(values)) * 20)\<close>. Python's \<open>/\<close> on two integers
  is the quotient rounded to the nearest IEEE 754 double, ties to even; \<open>* 20\<close> is the
  product of that double with \<open>20.0\<close>, rounded the same way; \<open>int\<close> cuts the fraction
  off. A double is identified with the rational number it stands for. A positive
  rational \<open>x\<close> lies in one binade \<open>2\<^sup>e \<le> x < 2\<^sup>e\<^sup>+\<^sup>1\<close>, where doubles are the
  multiples of \<open>2\<^sup>e\<^sup>-\<^sup>5\<^sup>2\<close>. The exponent range of doubles is not modelled: the
  numbers rounded here are quotients of two counts and their products with 20.
\<close>

definition binade :: "rat \<Rightarrow> int" where
  "binade x =
     (let (p, q) = quotient_of x; k = bitlen p - bitlen q
      in if 2 powi k \<le> x then k else k - 1)"

definition round_half_even :: "rat \<Rightarrow> int" where
  "round_half_even r =
     (let f = \<lfloor>r\<rfloor>; d = r - of_int f
      in if d < 1 / 2 then f else if 1 / 2 < d then f + 1
         else if even f then f else f + 1)"

definition round_pos :: "rat \<Rightarrow> rat" where
  "round_pos x = (let u = 2 powi (binade x - 52) in of_int (round_half_even (x / u)) * u)"

definition round_double :: "rat \<Rightarrow> rat" where
  "round_double x =
     (if x = 0 then 0 else if x < 0 then - round_pos (- x) else round_pos x)"

definition py_truediv :: "nat \<Rightarrow> nat \<Rightarrow> error + rat" where
  "py_truediv a b =
     (if b = 0 then Inl ZeroDivisionError else Inr (round_double (of_nat a / of_nat b)))"

definition py_float_mul :: "rat \<Rightarrow> rat \<Rightarrow> rat" where
  "py_float_mul a b = round_double (a * b)"

definition py_int :: "rat \<Rightarrow> int" where
  "py_int x = (if 0 \<le> x then \<lfloor>x\<rfloor> else \<lceil>x\<rceil>)"

text \<open>\<open>max\<close> and \<open>min\<close> of a sequence raise \<open>ValueError\<close> when it is empty.\<close>

definition py_max :: "nat list \<Rightarrow> error + nat" where
  "py_max xs = (case xs of [] \<Rightarrow> Inl ValueError | x # ys \<Rightarrow> Inr (fold max ys x))"

definition py_min :: "nat list \<Rightarrow> error + nat" where
  "py_min xs = (case xs of [] \<Rightarrow> Inl ValueError | x # ys \<Rightarrow> Inr (fold min ys x))"

text \<open>
  \<open>scale_bar cnt m\<close> is \<open>int((cnt / m) * 20)\<close>, and \<open>bar_length cnt vals\<close> is
  \<open>int((cnt / max(vals)) * 20)\<close>, where \<open>vals\<close> are the \<open>values()\<close> of the whole
  table of the section.
\<close>

definition scale_bar :: "nat \<Rightarrow> nat \<Rightarrow> error + int" where
  "scale_bar cnt m =
     (case py_truediv cnt m of
        Inl e \<Rightarrow> Inl e
      | Inr q \<Rightarrow> Inr (py_int (py_float_mul q 20)))"

definition bar_length :: "nat \<Rightarrow> nat list \<Rightarrow> error + int" where
  "bar_length cnt vals =
     (case py_max vals of
        Inl e \<Rightarrow> Inl e
      | Inr m \<Rightarrow> scale_bar cnt m)"

section \<open>The renderer: \<open>text_dashboard\<close>\<close>

text \<open>
  What the dashboard prints is a list of lines, one for each call of \<open>print\<close>, that holds
  the data of the line and leaves out its layout (field widths, the glyph of a bar). A bar
  line holds its label, the length of its bar (the string \<open>glyph * n\<close> has \<open>n\<close>
  characters, none when \<open>n\<close> is negative) and its count. \<open>text_dashboard\<close> catches no
  exception, so its result is the lines printed so far together with the exception that
  ended it, if any.
\<close>

datatype line =
    Rule | Title | NoData | StatsTitle | Dashes | TotalGames nat
  | PlatformTitle | GenreTitle | YearTitle | PublisherTitle | SummaryTitle
  | PlatformBar string nat nat
  | GenreBar string nat nat
  | YearBar string nat nat
  | PublisherLine string nat
  | YearRange nat nat
  | UniquePlatforms nat | UniqueGenres nat | UniquePublishers nat
  | FooterNote
  | NotAvailable | SearchTitle string | TopResults | NoResults | SearchError
  | ResultName nat string | ResultPlatform string | ResultYear string | ResultGenre string

type_synonym printed = "line list \<times> error option"

definition prints :: "line list \<Rightarrow> printed" where
  "prints ls = (ls, None)"

definition raises :: "error \<Rightarrow> printed" where
  "raises e = ([], Some e)"

definition and_then :: "printed \<Rightarrow> printed \<Rightarrow> printed" where
  "and_then a b = (case snd a of Some e \<Rightarrow> a | None \<Rightarrow> (fst a @ fst b, snd b))"

text \<open>
  The format specification \<open>:20s\<close> of a label: a string is printed, an integer raises
  \<open>ValueError\<close> (no format code \<open>s\<close> for integers) and \<open>None\<close> raises \<open>TypeError\<close>. The
  keys of the year table are strings.
\<close>

fun format_s :: "pyval \<Rightarrow> error + string" where
  "format_s (PStr s) = Inr s"
| "format_s (PInt i) = Inl ValueError"
| "format_s PNone = Inl TypeError"

definition format_str :: "string \<Rightarrow> error + string" where
  "format_str s = Inr s"

text \<open>
  The loop of a bar-chart section over the items it shows: the bar is computed first, against
  the values of the whole table, then the line is formatted and printed.
\<close>

fun bar_rows ::
  "('k \<Rightarrow> error + string) \<Rightarrow> (string \<Rightarrow> nat \<Rightarrow> nat \<Rightarrow> line) \<Rightarrow> nat list \<Rightarrow> ('k \<times> nat) list \<Rightarrow> printed"
where
  "bar_rows fmt mk vals [] = prints []"
| "bar_rows fmt mk vals ((k, c) # rest) =
     (case bar_length c vals of
        Inl e \<Rightarrow> raises e
      | Inr b \<Rightarrow>
          (case fmt k of
             Inl e \<Rightarrow> raises e
           | Inr s \<Rightarrow> and_then (prints [mk s (nat b) c]) (bar_rows fmt mk vals rest)))"

definition platform_section :: "pyval table \<Rightarrow> printed" where
  "platform_section t =
     (if t = [] then prints []
      else and_then (prints [PlatformTitle, Dashes])
             (bar_rows format_s PlatformBar (map snd t) (take 10 t)))"

definition genre_section :: "pyval table \<Rightarrow> printed" where
  "genre_section t =
     (if t = [] then prints []
      else and_then (prints [GenreTitle, Dashes])
             (bar_rows format_s GenreBar (map snd t) (take 10 t)))"

text \<open>\<open>sorted(years.items())[-10:]\<close>, the last ten items in key order.\<close>

definition recent_years :: "string table \<Rightarrow> (string \<times> nat) list" where
  "recent_years t = (let s = sorted_items t in drop (length s - 10) s)"

definition year_section :: "string table \<Rightarrow> printed" where
  "year_section t =
     (if t = [] then prints []
      else and_then (prints [YearTitle, Dashes])
             (bar_rows format_str YearBar (map snd t) (recent_years t)))"

definition publisher_section :: "pyval table \<Rightarrow> printed" where
  "publisher_section t =
     (if t = [] then prints []
      else prints ([PublisherTitle, Dashes] @ map (\<lambda>(k, c). PublisherLine (py_str k) c) (take 5 t)))"

text \<open>
  \<open>year_values = [int(y) for y in years.keys() if y != 'Unknown' and y.isdigit()]\<close> and
  the summary block, printed when there is a year value.
\<close>

definition year_values :: "string table \<Rightarrow> nat list" where
  "year_values t = map int_of_digits (filter (\<lambda>y. y \<noteq> ''Unknown'' \<and> isdigit y) (map fst t))"

definition summary_section ::
  "string table \<Rightarrow> pyval table \<Rightarrow> pyval table \<Rightarrow> pyval table \<Rightarrow> printed" where
  "summary_section ys ps gs pubs =
     (if ys = [] then prints []
      else if year_values ys = [] then prints []
      else
        (case py_min (year_values ys) of
           Inl e \<Rightarrow> and_then (prints [SummaryTitle, Dashes]) (raises e)
         | Inr lo \<Rightarrow>
             (case py_max (year_values ys) of
                Inl e \<Rightarrow> and_then (prints [SummaryTitle, Dashes]) (raises e)
              | Inr hi \<Rightarrow>
                  prints [SummaryTitle, Dashes, YearRange lo hi, UniquePlatforms (length ps),
                    UniqueGenres (length gs), UniquePublishers (length pubs)])))"

text \<open>\<open>stats.get(key, {})\<close> and \<open>stats.get('total_games', 0)\<close>; \<open>not stats\<close>.\<close>

definition table_or_empty :: "'k table option \<Rightarrow> 'k table" where
  "table_or_empty t = (case t of None \<Rightarrow> [] | Some d \<Rightarrow> d)"

definition total_or_zero :: "nat option \<Rightarrow> nat" where
  "total_or_zero t = (case t of None \<Rightarrow> 0 | Some n \<Rightarrow> n)"

definition no_keys :: "stats \<Rightarrow> bool" where
  "no_keys st =
     (total_games st = None \<and> platforms st = None \<and> years st = None \<and> genres st = None
      \<and> publishers st = None)"

definition text_dashboard :: "metadata list option \<Rightarrow> printed" where
  "text_dashboard collection =
     (let st = get_collection_stats collection in
      and_then (prints [Rule, Title, Rule])
        (if no_keys st then prints [NoData]
         else
           (let ps = table_or_empty (platforms st);
                gs = table_or_empty (genres st);
                ys = table_or_empty (years st);
                pubs = table_or_empty (publishers st)
            in and_then (prints [StatsTitle, Dashes, TotalGames (total_or_zero (total_games st))])
                 (and_then (platform_section ps)
                   (and_then (genre_section gs)
                     (and_then (year_section ys)
                       (and_then (publisher_section pubs)
                         (and_then (summary_section ys ps gs pubs)
                           (prints [Rule, FooterNote, Rule])))))))))"

section \<open>The search test: \<open>test_search\<close>\<close>





section \<open>The specification's readings\<close>

text \<open>
  The specification scales a bar against the largest count among the entries that the
  section displays: \<open>floor(count / maxCountInDisplayedSet * 20)\<close>, in exact arithmetic.
\<close>

definition spec_bar_length :: "nat \<Rightarrow> nat list \<Rightarrow> int" where
  "spec_bar_length cnt displayed = \<lfloor>of_nat cnt / of_nat (Max (set displayed)) * (20::rat)\<rfloor>"


section \<open>Example collections\<close>

text \<open>
  Records that hold one field, and the collections at which the theorems below are
  evaluated: three records on two platforms, one record with a year, records with a short
  year, twelve records over eleven years and eleven records of eleven publishers.
\<close>

definition platform_record :: "string \<Rightarrow> metadata" where
  "platform_record p = [''Platform'' \<mapsto> PStr p]"

definition year_record :: "pyval \<Rightarrow> metadata" where
  "year_record y = [''YearOfRelease'' \<mapsto> y]"




definition snes_genesis :: "metadata list" where
  "snes_genesis = [platform_record ''SNES'', platform_record ''SNES'', platform_record ''Genesis'']"



definition twelve_years :: "metadata list" where
  "twelve_years =
     [year_record (PStr ''1990''), year_record (PStr ''1990''), year_record (PStr ''1991''),
      year_record (PStr ''1992''), year_record (PStr ''1993''), year_record (PStr ''1994''),
      year_record (PStr ''1995''), year_record (PStr ''1996''), year_record (PStr ''1997''),
      year_record (PStr ''1998''), year_record (PStr ''1999''), year_record (PStr ''2000'')]"


section \<open>Properties of the tables\<close>

text \<open>
  The lemmas of this section follow the aggregation: what one assignment and one counting
  step do to a dictionary, what the loop leaves in it (distinct keys in the order of their
  first occurrence, positive counts that sum to the number of records), and what the two
  sorts keep of it.
\<close>

subsection \<open>Dictionaries\<close>

lemma dict_set_keys:
  "map fst (dict_set t k v) = (if k \<in> set (map fst t) then map fst t else map fst t @ [k])"
  by (induction t) (auto simp add: rev_image_eqI)

lemma dict_set_new: "k \<notin> set (map fst t) \<Longrightarrow> dict_set t k v = t @ [(k, v)]"
  by (induction t) auto


lemma sum_dict_set:
  "sum_list (map snd (dict_set t k v)) + dict_get t k 0 = sum_list (map snd t) + v"
  by (induction t) auto

lemma set_dict_set:
  "set (dict_set t k v) \<subseteq> insert (k, v) (set t)"
  by (induction t) (auto split: if_splits)



lemma py_dict_fold:
  "distinct (map fst (acc @ its)) \<Longrightarrow> fold (\<lambda>(k, v) d. dict_set d k v) its acc = acc @ its"
proof (induction its arbitrary: acc)
  case Nil
  then show ?case by simp
next
  case (Cons kv its)
  obtain k v where kv: "kv = (k, v)" by (cases kv)
  from Cons.prems have "k \<notin> set (map fst acc)" by (auto simp add: kv)
  then have "dict_set acc k v = acc @ [(k, v)]" by (rule dict_set_new)
  moreover from Cons.prems have "distinct (map fst ((acc @ [(k, v)]) @ its))" by (simp add: kv)
  ultimately show ?case using Cons.IH [of "acc @ [(k, v)]"] by (simp add: kv)
qed

lemma py_dict_distinct: "distinct (map fst its) \<Longrightarrow> py_dict its = its"
  using py_dict_fold [of "[]" its] by (simp add: py_dict_def)

subsection \<open>Counting\<close>

lemma bump_keys:
  "map fst (bump k t) = (if k \<in> set (map fst t) then map fst t else map fst t @ [k])"
  by (simp add: bump_def dict_set_keys)

lemma bump_distinct: "distinct (map fst t) \<Longrightarrow> distinct (map fst (bump k t))"
  by (simp add: bump_keys)

lemma bump_sum: "sum_list (map snd (bump k t)) = sum_list (map snd t) + 1"
  using sum_dict_set [of t k "dict_get t k 0 + 1"] by (simp add: bump_def)


lemma bump_positive:
  assumes "\<forall>e \<in> set t. 0 < snd e"
  shows "\<forall>e \<in> set (bump k t). 0 < snd e"
  using assms set_dict_set [of t k "dict_get t k 0 + 1"] by (auto simp add: bump_def)

lemma fold_bump_distinct: "distinct (map fst t) \<Longrightarrow> distinct (map fst (fold bump ks t))"
  by (induction ks arbitrary: t) (simp_all add: bump_distinct)

lemma fold_bump_sum: "sum_list (map snd (fold bump ks t)) = sum_list (map snd t) + length ks"
  by (induction ks arbitrary: t) (simp_all add: bump_sum)


lemma fold_bump_positive:
  "\<forall>e \<in> set t. 0 < snd e \<Longrightarrow> \<forall>e \<in> set (fold bump ks t). 0 < snd e"
proof (induction ks arbitrary: t)
  case Nil
  then show ?case by simp
next
  case (Cons k ks)
  from Cons.prems have "\<forall>e \<in> set (bump k t). 0 < snd e" by (rule bump_positive)
  then have "\<forall>e \<in> set (fold bump ks (bump k t)). 0 < snd e" by (rule Cons.IH)
  then show ?case by simp
qed




subsection \<open>Sorting\<close>

lemma sum_list_insort_key: "sum_list (map f (insort_key g x xs)) = f x + sum_list (map f xs)"
  for f :: "'a \<Rightarrow> nat"
  by (induction xs) simp_all

lemma sum_list_sort_key: "sum_list (map f (sort_key g xs)) = sum_list (map f xs)"
  for f :: "'a \<Rightarrow> nat"
  by (induction xs) (simp_all add: sum_list_insort_key)

lemma desc_set [simp]: "set (sorted_by_count_desc t) = set t"
  by (simp add: sorted_by_count_desc_def)

lemma desc_length [simp]: "length (sorted_by_count_desc t) = length t"
  by (simp add: sorted_by_count_desc_def)

lemma desc_sum: "sum_list (map snd (sorted_by_count_desc t)) = sum_list (map snd t)"
  by (simp add: sorted_by_count_desc_def rev_map [symmetric] sum_list_sort_key)

lemma desc_distinct: "distinct (map fst t) \<Longrightarrow> distinct (map fst (sorted_by_count_desc t))"
  by (simp add: sorted_by_count_desc_def distinct_map)

lemma desc_sorted: "sorted_wrt (\<lambda>a b. snd b \<le> snd a) (sorted_by_count_desc t)"
proof -
  have "sorted (map snd (sort_key snd (rev t)))" by (rule sorted_sort_key)
  then have "sorted_wrt (\<lambda>a b. snd a \<le> snd b) (sort_key snd (rev t))"
    by (simp add: sorted_map)
  then show ?thesis
    by (simp add: sorted_by_count_desc_def sorted_wrt_rev)
qed



lemma items_set [simp]: "set (sorted_items t) = set t"
  by (simp add: sorted_items_def)

lemma items_length [simp]: "length (sorted_items t) = length t"
  by (simp add: sorted_items_def)

lemma items_sum: "sum_list (map snd (sorted_items t)) = sum_list (map snd t)"
  by (simp add: sorted_items_def sum_list_sort_key)

lemma items_distinct: "distinct (map fst t) \<Longrightarrow> distinct (map fst (sorted_items t))"
  by (simp add: sorted_items_def distinct_map)



subsection \<open>The tables of the statistics\<close>

lemma fold_count_metadata:
  "fold count_metadata docs c =
     \<lparr>c_platforms = fold bump (map platform_of docs) (c_platforms c),
      c_years = fold bump (map year_of docs) (c_years c),
      c_genres = fold bump (map genre_of docs) (c_genres c),
      c_publishers = fold bump (map publisher_of docs) (c_publishers c)\<rparr>"
  by (induction docs arbitrary: c) (simp_all add: count_metadata_def)

lemma count_all_tables:
  "c_platforms (count_all docs) = fold bump (map platform_of docs) []"
  "c_years (count_all docs) = fold bump (map year_of docs) []"
  "c_genres (count_all docs) = fold bump (map genre_of docs) []"
  "c_publishers (count_all docs) = fold bump (map publisher_of docs) []"
  by (simp_all add: count_all_def fold_count_metadata no_counts_def)

lemma tally_distinct: "distinct (map fst (fold bump ks []))"
  by (simp add: fold_bump_distinct)

lemma tally_sum: "sum_list (map snd (fold bump ks [])) = length ks"
  by (simp add: fold_bump_sum)


lemma tally_positive: "e \<in> set (fold bump ks []) \<Longrightarrow> 0 < snd e"
  using fold_bump_positive [of "[]" ks] by simp



lemma tally_nonempty: "ks \<noteq> [] \<Longrightarrow> fold bump ks [] \<noteq> []"
  using tally_sum [of ks] by auto

lemma stats_tables:
  assumes "docs \<noteq> []"
  shows "total_games (get_collection_stats (Some docs)) = Some (length docs)"
    and "platforms (get_collection_stats (Some docs)) =
          Some (sorted_by_count_desc (fold bump (map platform_of docs) []))"
    and "years (get_collection_stats (Some docs)) =
          Some (sorted_items (fold bump (map year_of docs) []))"
    and "genres (get_collection_stats (Some docs)) =
          Some (sorted_by_count_desc (fold bump (map genre_of docs) []))"
    and "publishers (get_collection_stats (Some docs)) =
          Some (take 10 (sorted_by_count_desc (fold bump (map publisher_of docs) [])))"
  using assms
  by (simp_all add: get_collection_stats_def Let_def count_all_tables py_dict_distinct
      desc_distinct items_distinct tally_distinct take_map [symmetric])

lemma stats_empty:
  "get_collection_stats (Some []) = empty_stats\<lparr>total_games := Some 0\<rparr>"
  "get_collection_stats None = empty_stats"
  by (simp_all add: get_collection_stats_def)


lemma dict_get_take:
  "distinct (map fst t) \<Longrightarrow> dict_get (take n t) k d = dict_get t k d \<or> dict_get (take n t) k d = d"
proof (induction t arbitrary: n)
  case Nil
  then show ?case by simp
next
  case (Cons e t)
  then show ?case by (cases n; cases e) auto
qed

subsection \<open>Keys of absent and null fields\<close>












section \<open>Properties of the rounding\<close>

text \<open>
  Rounding to a double is monotone, leaves a number with a mantissa of at most 53 bits as it
  is, and moves a number by at most the \<open>2\<^sup>5\<^sup>3\<close>th part of itself. So the scaled bar of a
  count that is at most the largest count lies between 0 and 20, is 20 for the largest count
  itself and, for counts below \<open>2\<^sup>4\<^sup>7\<close>, is the exact integer quotient: where the quotient has
  a remainder the two roundings cannot reach the next integer, and the twenty-one quotients
  without a remainder are evaluated.
\<close>

lemma rhe_of_int: "round_half_even (of_int n) = n"
  by (simp add: round_half_even_def)

lemma rhe_lower: "\<lfloor>r\<rfloor> \<le> round_half_even r"
  by (simp add: round_half_even_def Let_def)

lemma rhe_upper: "round_half_even r \<le> \<lfloor>r\<rfloor> + 1"
  by (simp add: round_half_even_def Let_def)

lemma rhe_mono:
  assumes "a \<le> b"
  shows "round_half_even a \<le> round_half_even b"
proof (cases "\<lfloor>a\<rfloor> = \<lfloor>b\<rfloor>")
  case True
  with assms have "a - of_int \<lfloor>a\<rfloor> \<le> b - of_int \<lfloor>b\<rfloor>" by simp
  with True show ?thesis
    by (auto simp add: round_half_even_def Let_def)
next
  case False
  with assms have "\<lfloor>a\<rfloor> < \<lfloor>b\<rfloor>"
    using floor_mono [of a b] by linarith
  then have "round_half_even a \<le> \<lfloor>b\<rfloor>"
    using rhe_upper [of a] by linarith
  then show ?thesis
    using rhe_lower [of b] by linarith
qed

lemma rhe_error: "\<bar>of_int (round_half_even r) - r\<bar> \<le> 1 / 2"
proof -
  have "of_int \<lfloor>r\<rfloor> \<le> r" "r < of_int \<lfloor>r\<rfloor> + 1"
    by linarith+
  then show ?thesis
    by (auto simp add: round_half_even_def Let_def abs_le_iff)
qed

lemma binade_bounds:
  assumes "0 < x"
  shows "2 powi binade x \<le> x" and "x < 2 powi (binade x + 1)"
proof -
  obtain p q where pq: "quotient_of x = (p, q)" by (cases "quotient_of x")
  then have q: "0 < q" and x: "x = of_int p / of_int q"
    using quotient_of_denom_pos quotient_of_div by blast+
  with assms have p: "0 < p"
    by (simp add: zero_less_divide_iff)
  define k where "k = bitlen p - bitlen q"
  have bp: "2 ^ nat (bitlen p - 1) \<le> p" "p < 2 ^ nat (bitlen p)"
    using bitlen_bounds [OF p] by simp_all
  have bq: "2 ^ nat (bitlen q - 1) \<le> q" "q < 2 ^ nat (bitlen q)"
    using bitlen_bounds [OF q] by simp_all
  have bp1: "1 \<le> bitlen p" and bq1: "1 \<le> bitlen q"
    using p q by (simp_all add: bitlen_alt_def)
  have P: "(2::rat) powi (bitlen p - 1) \<le> of_int p" "of_int p < (2::rat) powi bitlen p"
  proof -
    have "(of_int (2 ^ nat (bitlen p - 1)) :: rat) \<le> of_int p" using bp(1) by (simp only: of_int_le_iff)
    then show "(2::rat) powi (bitlen p - 1) \<le> of_int p" using bp1 by (simp add: power_int_def)
    have "(of_int p :: rat) < of_int (2 ^ nat (bitlen p))" using bp(2) by (simp only: of_int_less_iff)
    then show "of_int p < (2::rat) powi bitlen p" using bp1 by (simp add: power_int_def)
  qed
  have Q: "(2::rat) powi (bitlen q - 1) \<le> of_int q" "of_int q < (2::rat) powi bitlen q"
  proof -
    have "(of_int (2 ^ nat (bitlen q - 1)) :: rat) \<le> of_int q" using bq(1) by (simp only: of_int_le_iff)
    then show "(2::rat) powi (bitlen q - 1) \<le> of_int q" using bq1 by (simp add: power_int_def)
    have "(of_int q :: rat) < of_int (2 ^ nat (bitlen q))" using bq(2) by (simp only: of_int_less_iff)
    then show "of_int q < (2::rat) powi bitlen q" using bq1 by (simp add: power_int_def)
  qed
  have qpos: "(0::rat) < of_int q" using q by simp
  have e1: "(2::rat) powi (k + 1) * 2 powi (bitlen q - 1) = 2 powi bitlen p"
    by (simp add: k_def power_int_add [symmetric])
  have e2: "(2::rat) powi (k - 1) * 2 powi bitlen q = 2 powi (bitlen p - 1)"
    by (simp add: k_def power_int_add [symmetric])
  have up: "x < 2 powi (k + 1)"
  proof -
    have "of_int p < (2::rat) powi (k + 1) * 2 powi (bitlen q - 1)" using P(2) e1 by simp
    also have "\<dots> \<le> 2 powi (k + 1) * of_int q"
      using Q(1) by (intro mult_left_mono) simp_all
    finally show ?thesis using qpos by (simp add: x pos_divide_less_eq)
  qed
  have lo: "2 powi (k - 1) \<le> x"
  proof -
    have "(2::rat) powi (k - 1) * of_int q \<le> 2 powi (k - 1) * 2 powi bitlen q"
      using Q(2) by (intro mult_left_mono) simp_all
    also have "\<dots> \<le> of_int p" using P(1) e2 by simp
    finally show ?thesis using qpos by (simp add: x pos_le_divide_eq)
  qed
  have b: "binade x = (if 2 powi k \<le> x then k else k - 1)"
    by (simp add: binade_def pq k_def)
  show "2 powi binade x \<le> x" using lo by (simp add: b)
  show "x < 2 powi (binade x + 1)" using up by (simp add: b not_le)
qed

lemma binade_mono:
  assumes "0 < x" "x \<le> y"
  shows "binade x \<le> binade y"
proof (rule ccontr)
  assume "\<not> binade x \<le> binade y"
  then have "binade y + 1 \<le> binade x" by simp
  then have "(2::rat) powi (binade y + 1) \<le> 2 powi binade x"
    by (intro power_int_increasing) simp_all
  moreover have "y < 2 powi (binade y + 1)"
    using assms binade_bounds(2) [of y] by simp
  moreover have "2 powi binade x \<le> x"
    using assms binade_bounds(1) [of x] by simp
  ultimately show False using assms by linarith
qed

lemma binade_unique:
  assumes "2 powi e \<le> x" "x < 2 powi (e + 1)"
  shows "binade x = e"
proof -
  have x: "0 < x"
    using assms(1) zero_less_power_int [of "2::rat" e] by linarith
  have "\<not> binade x < e"
  proof
    assume "binade x < e"
    then have "(2::rat) powi (binade x + 1) \<le> 2 powi e"
      by (intro power_int_increasing) simp_all
    then show False using binade_bounds(2) [OF x] assms(1) by linarith
  qed
  moreover have "\<not> e < binade x"
  proof
    assume "e < binade x"
    then have "(2::rat) powi (e + 1) \<le> 2 powi binade x"
      by (intro power_int_increasing) simp_all
    then show False using binade_bounds(1) [OF x] assms(2) by linarith
  qed
  ultimately show ?thesis by simp
qed

lemma scale52: "(2::rat) ^ 52 * 2 powi (e - 52) = 2 powi e"
  using power_int_add [of "2::rat" 52 "e - 52"] by simp

lemma scale53: "(2::rat) ^ 53 * 2 powi (e - 52) = 2 powi (e + 1)"
  using power_int_add [of "2::rat" 53 "e - 52"] by (simp add: add.commute)

lemma mantissa_bounds:
  assumes "0 < x"
  shows "2 ^ 52 \<le> x / 2 powi (binade x - 52)" and "x / 2 powi (binade x - 52) < 2 ^ 53"
proof -
  have u: "(0::rat) < 2 powi (binade x - 52)" by simp
  have "(2::rat) ^ 52 * 2 powi (binade x - 52) \<le> x"
    using binade_bounds(1) [OF assms] by (simp only: scale52)
  then show "2 ^ 52 \<le> x / 2 powi (binade x - 52)"
    using u by (simp only: pos_le_divide_eq)
  have "x < (2::rat) ^ 53 * 2 powi (binade x - 52)"
    using binade_bounds(2) [OF assms] by (simp only: scale53)
  then show "x / 2 powi (binade x - 52) < 2 ^ 53"
    using u by (simp only: pos_divide_less_eq)
qed

lemma round_pos_bounds:
  assumes "0 < x"
  shows "2 powi binade x \<le> round_pos x" and "round_pos x \<le> 2 powi (binade x + 1)"
proof -
  let ?u = "(2::rat) powi (binade x - 52)"
  have u: "0 < ?u" by simp
  have "round_half_even (of_int (2 ^ 52)) \<le> round_half_even (x / ?u)"
    using mantissa_bounds(1) [OF assms] by (intro rhe_mono) simp
  then have "(2::int) ^ 52 \<le> round_half_even (x / ?u)"
    by (simp only: rhe_of_int)
  then have "(of_int (2 ^ 52) :: rat) \<le> of_int (round_half_even (x / ?u))"
    by (simp only: of_int_le_iff)
  then have "(2::rat) ^ 52 * ?u \<le> of_int (round_half_even (x / ?u)) * ?u"
    using u by (intro mult_right_mono) simp_all
  then have "2 powi binade x \<le> of_int (round_half_even (x / ?u)) * ?u"
    by (simp only: scale52)
  then show "2 powi binade x \<le> round_pos x"
    by (simp only: round_pos_def Let_def)
  have "round_half_even (x / ?u) \<le> round_half_even (of_int (2 ^ 53))"
    using mantissa_bounds(2) [OF assms] by (intro rhe_mono) simp
  then have "round_half_even (x / ?u) \<le> (2::int) ^ 53"
    by (simp only: rhe_of_int)
  then have "(of_int (round_half_even (x / ?u)) :: rat) \<le> of_int (2 ^ 53)"
    by (simp only: of_int_le_iff)
  then have "of_int (round_half_even (x / ?u)) * ?u \<le> (2::rat) ^ 53 * ?u"
    using u by (intro mult_right_mono) simp_all
  then have "of_int (round_half_even (x / ?u)) * ?u \<le> 2 powi (binade x + 1)"
    by (simp only: scale53)
  then show "round_pos x \<le> 2 powi (binade x + 1)"
    by (simp only: round_pos_def Let_def)
qed

lemma round_pos_mono:
  assumes "0 < x" "x \<le> y"
  shows "round_pos x \<le> round_pos y"
proof (cases "binade x = binade y")
  case True
  let ?u = "(2::rat) powi (binade y - 52)"
  have u: "0 < ?u" by simp
  have "x / ?u \<le> y / ?u"
    using assms u by (simp add: divide_right_mono)
  then have "round_half_even (x / ?u) \<le> round_half_even (y / ?u)"
    by (rule rhe_mono)
  then have "(of_int (round_half_even (x / ?u)) :: rat) \<le> of_int (round_half_even (y / ?u))"
    by (simp only: of_int_le_iff)
  then have "of_int (round_half_even (x / ?u)) * ?u \<le> of_int (round_half_even (y / ?u)) * ?u"
    using u by (intro mult_right_mono) simp_all
  then show ?thesis
    by (simp add: round_pos_def Let_def True)
next
  case False
  with binade_mono [OF assms] have "binade x + 1 \<le> binade y" by simp
  then have "(2::rat) powi (binade x + 1) \<le> 2 powi binade y"
    by (intro power_int_increasing) simp_all
  moreover have "round_pos x \<le> 2 powi (binade x + 1)"
    using assms by (intro round_pos_bounds) simp
  moreover have "2 powi binade y \<le> round_pos y"
    using assms by (intro round_pos_bounds) simp
  ultimately show ?thesis by linarith
qed

lemma round_pos_error:
  assumes "0 < x"
  shows "\<bar>round_pos x - x\<bar> \<le> x / 2 ^ 53"
proof -
  let ?u = "(2::rat) powi (binade x - 52)"
  let ?n = "x / ?u"
  have u: "0 < ?u" by simp
  have "round_pos x - x = (of_int (round_half_even ?n) - ?n) * ?u"
    using u by (simp add: round_pos_def Let_def algebra_simps)
  then have "\<bar>round_pos x - x\<bar> = \<bar>of_int (round_half_even ?n) - ?n\<bar> * ?u"
    using u by (simp add: abs_mult)
  also have "\<dots> \<le> (1 / 2) * ?u"
    using rhe_error [of ?n] u by (intro mult_right_mono) simp_all
  also have "\<dots> \<le> (?n / 2 ^ 53) * ?u"
  proof (intro mult_right_mono)
    have "(1::rat) / 2 = 2 ^ 52 / 2 ^ 53" by simp
    also have "\<dots> \<le> ?n / 2 ^ 53"
      by (intro divide_right_mono mantissa_bounds(1) assms) simp
    finally show "1 / 2 \<le> ?n / 2 ^ 53" .
    show "0 \<le> ?u" by simp
  qed
  also have "\<dots> = x / 2 ^ 53"
    using u by simp
  finally show ?thesis .
qed

lemma round_pos_pos: "0 < x \<Longrightarrow> 0 < round_pos x"
  using round_pos_bounds(1) [of x] zero_less_power_int [of "2::rat" "binade x"]
  by linarith

lemma round_double_nonneg: "0 \<le> x \<Longrightarrow> 0 \<le> round_double x"
  using round_pos_pos [of x] by (cases "x = 0") (simp_all add: round_double_def)

lemma round_double_mono:
  assumes "0 \<le> x" "x \<le> y"
  shows "round_double x \<le> round_double y"
proof (cases "x = 0")
  case True
  then show ?thesis
    using assms round_double_nonneg [of y] by (simp add: round_double_def)
next
  case False
  with assms have "0 < x" "0 < y" by simp_all
  then show ?thesis
    using round_pos_mono [of x y] assms by (simp add: round_double_def)
qed

lemma round_double_error:
  assumes "0 \<le> x"
  shows "\<bar>round_double x - x\<bar> \<le> x / 2 ^ 53"
  using assms round_pos_error [of x] by (cases "x = 0") (simp_all add: round_double_def)

lemma round_pos_representable:
  assumes n: "0 < n" "n < 2 ^ 53"
  shows "round_pos (of_int n * 2 powi j) = of_int n * 2 powi j"
proof -
  define x :: rat where "x = of_int n * 2 powi j"
  have x: "0 < x" using n by (simp add: x_def)
  have "(of_int n :: rat) < of_int (2 ^ 53)" using n(2) by (simp only: of_int_less_iff)
  then have "x < 2 ^ 53 * 2 powi j" by (simp add: x_def)
  also have "\<dots> = 2 powi (j + 53)"
    using power_int_add [of "2::rat" 53 j] by (simp add: add.commute)
  finally have "2 powi binade x < (2::rat) powi (j + 53)"
    using binade_bounds(1) [OF x] by linarith
  then have "binade x < j + 53"
    using power_int_increasing [of "j + 53" "binade x" "2::rat"] by (cases "binade x < j + 53") auto
  define d where "d = nat (j - (binade x - 52))"
  with \<open>binade x < j + 53\<close> have d: "j = (binade x - 52) + int d" by simp
  define u :: rat where "u = 2 powi (binade x - 52)"
  have u: "0 < u" by (simp add: u_def)
  have "(2::rat) powi j = 2 powi ((binade x - 52) + int d)" using d by simp
  also have "\<dots> = u * 2 ^ d"
    unfolding u_def using power_int_add [of "2::rat" "binade x - 52" "int d"] by simp
  finally have pj: "2 powi j = u * 2 ^ d" .
  have xu: "x = of_int (n * 2 ^ d) * u" by (simp add: x_def pj)
  then have "x / u = of_int (n * 2 ^ d)" using u by simp
  then have "round_half_even (x / u) = n * 2 ^ d" by (simp only: rhe_of_int)
  then have "round_pos x = of_int (n * 2 ^ d) * u" by (simp only: round_pos_def Let_def u_def)
  then show ?thesis using xu by (simp only: x_def)
qed

lemma round_double_nat: "round_double (of_nat k) = of_nat k" if "k \<le> 20" for k :: nat
proof (cases "k = 0")
  case True
  then show ?thesis by (simp add: round_double_def)
next
  case False
  with that have "0 < int k" "int k < 2 ^ 53" by simp_all
  then have "round_pos (of_int (int k) * 2 powi 0) = of_int (int k) * 2 powi 0"
    by (rule round_pos_representable)
  then show ?thesis using False by (simp add: round_double_def)
qed

lemma round_double_below:
  "round_double (of_nat k + 1 - 1 / 2 ^ 48) = of_nat k + 1 - 1 / 2 ^ 48" if "k < 20" for k :: nat
proof -
  let ?n = "(int k + 1) * 2 ^ 48 - 1"
  define z :: rat where "z = of_nat k + 1 - 1 / 2 ^ 48"
  have zeq: "z = of_int ?n * 2 powi (- 48)"
    unfolding z_def by (simp add: power_int_minus field_simps)
  have zpos: "0 < z"
    unfolding z_def by (simp add: add_pos_nonneg)
  have "0 < ?n" "?n < 2 ^ 53" using that by simp_all
  then have "round_pos z = z"
    unfolding zeq by (rule round_pos_representable)
  then have "round_double z = z"
    using zpos by (simp add: round_double_def)
  then show ?thesis unfolding z_def .
qed

lemma grid_exact:
  "list_all (\<lambda>k. \<lfloor>round_double (round_double (of_nat k / 20) * 20)\<rfloor> = int k) [0..<21]"
  by code_simp

lemma round_double_twentieths:
  "k \<le> 20 \<Longrightarrow> \<lfloor>round_double (round_double (of_nat k / 20) * 20)\<rfloor> = int k"
  using grid_exact by (simp add: list_all_iff)

lemma scaled_bounds:
  assumes "0 < m" "c \<le> m"
  shows "0 \<le> \<lfloor>round_double (round_double (of_nat c / of_nat m) * 20)\<rfloor>"
    and "\<lfloor>round_double (round_double (of_nat c / of_nat m) * 20)\<rfloor> \<le> 20"
proof -
  let ?x = "of_nat c / of_nat m :: rat"
  have x: "0 \<le> ?x" "?x \<le> 1" using assms by simp_all
  have q0: "0 \<le> round_double ?x" using x(1) by (rule round_double_nonneg)
  have "round_double ?x \<le> round_double 1" using x by (rule round_double_mono)
  also have "round_double 1 = 1" using round_double_nat [of 1] by simp
  finally have q1: "round_double ?x \<le> 1" .
  have y: "0 \<le> round_double ?x * 20" "round_double ?x * 20 \<le> 20" using q0 q1 by simp_all
  have "round_double (round_double ?x * 20) \<le> round_double 20" using y by (rule round_double_mono)
  also have "round_double 20 = 20" using round_double_nat [of 20] by simp
  finally have "round_double (round_double ?x * 20) \<le> 20" .
  then have "\<lfloor>round_double (round_double ?x * 20)\<rfloor> \<le> \<lfloor>20::rat\<rfloor>" by (rule floor_mono)
  then show "\<lfloor>round_double (round_double ?x * 20)\<rfloor> \<le> 20" by simp
  have "0 \<le> round_double (round_double ?x * 20)" using y(1) by (rule round_double_nonneg)
  then show "0 \<le> \<lfloor>round_double (round_double ?x * 20)\<rfloor>" by simp
qed

lemma scaled_top:
  "0 < m \<Longrightarrow> \<lfloor>round_double (round_double (of_nat m / of_nat m) * 20)\<rfloor> = 20"
  using round_double_twentieths [of 20] by simp

lemma scaled_exact:
  assumes m: "0 < m" and cm: "c \<le> m" and small: "m < 2 ^ 47"
  shows "\<lfloor>round_double (round_double (of_nat c / of_nat m) * 20)\<rfloor> = int (20 * c div m)"
proof -
  define k where "k = 20 * c div m"
  define r where "r = 20 * c mod m"
  have split: "20 * c = k * m + r" by (simp add: k_def r_def)
  have k20: "k \<le> 20"
  proof -
    have "20 * c div m \<le> 20 * m div m" using cm by (intro div_le_mono) simp
    then show ?thesis using m by (simp add: k_def)
  qed
  let ?x = "of_nat c / of_nat m :: rat"
  have mpos: "(0::rat) < of_nat m" using m by simp
  have x20: "20 * ?x = of_nat k + of_nat r / of_nat m"
  proof -
    have "(of_nat (20 * c) :: rat) = of_nat (k * m + r)" by (simp only: split)
    then have "20 * (of_nat c :: rat) = of_nat k * of_nat m + of_nat r" by simp
    then show ?thesis using mpos by (simp add: field_simps)
  qed
  show ?thesis
  proof (cases "r = 0")
    case True
    then have "20 * ?x = of_nat k" using x20 by simp
    then have "?x = of_nat k / 20" by linarith
    then have "\<lfloor>round_double (round_double ?x * 20)\<rfloor> =
        \<lfloor>round_double (round_double (of_nat k / 20) * 20)\<rfloor>"
      by (simp only:)
    also have "\<dots> = int k" by (rule round_double_twentieths [OF k20])
    finally show ?thesis by (simp only: k_def)
  next
    case False
    then have r1: "1 \<le> r" by simp
    have rm: "r < m" using m by (simp add: r_def)
    have k19: "k < 20"
    proof (rule ccontr)
      assume "\<not> k < 20"
      with k20 have "k = 20" by simp
      with split have "20 * c = 20 * m + r" by simp
      with cm r1 show False by simp
    qed
    define x :: rat where "x = of_nat c / of_nat m"
    define f :: rat where "f = of_nat r / of_nat m"
    define em :: rat where "em = 1 / of_nat m"
    define e53 :: rat where "e53 = 1 / 2 ^ 53"
    define e48 :: rat where "e48 = 1 / 2 ^ 48"
    define e47 :: rat where "e47 = 1 / 2 ^ 47"
    have x0: "0 \<le> x" and x1: "x \<le> 1" using m cm by (simp_all add: x_def)
    define q where "q = round_double x"
    have "\<bar>q - x\<bar> \<le> x / 2 ^ 53" unfolding q_def using x0 by (rule round_double_error)
    also have "\<dots> \<le> 1 / 2 ^ 53" using x1 by (intro divide_right_mono) simp_all
    finally have "\<bar>q - x\<bar> \<le> e53" by (simp only: e53_def)
    then have err: "q - x \<le> e53" "x - q \<le> e53" by (simp_all add: abs_le_iff)
    have x20': "20 * x = of_nat k + f" using x20 by (simp only: x_def f_def)
    have inv_m: "e47 \<le> em"
    proof -
      have "(of_nat m :: rat) \<le> of_nat (2 ^ 47)" using small by (simp only: of_nat_le_iff less_imp_le)
      then have "(of_nat m :: rat) \<le> 2 ^ 47" by simp
      then have "1 / 2 ^ 47 \<le> 1 / (of_nat m :: rat)"
        using mpos by (intro divide_left_mono) simp_all
      then show ?thesis by (simp only: e47_def em_def)
    qed
    have frac_lo: "em \<le> f"
      unfolding em_def f_def using r1 mpos by (intro divide_right_mono) simp_all
    have frac_hi: "f \<le> 1 - em"
    proof -
      have "r + 1 \<le> m" using rm by simp
      then have "(of_nat (r + 1) :: rat) \<le> of_nat m" by (simp only: of_nat_le_iff)
      then have "(of_nat r :: rat) \<le> of_nat m - 1" by simp
      then have "(of_nat r / of_nat m :: rat) \<le> (of_nat m - 1) / of_nat m"
        using mpos by (intro divide_right_mono) simp_all
      also have "\<dots> = 1 - 1 / of_nat m" using mpos by (simp add: field_simps)
      finally show ?thesis by (simp only: em_def f_def)
    qed
    have n1: "20 * e53 \<le> e47" by (simp add: e53_def e47_def)
    have n2: "e48 + 20 * e53 \<le> e47" by (simp add: e53_def e47_def e48_def)
    have lo: "of_nat k \<le> q * 20"
      using err x20' inv_m frac_lo n1 by linarith
    have "q * 20 \<le> of_nat k + 1 - e48"
      using err x20' inv_m frac_hi n2 by linarith
    then have hi: "q * 20 \<le> of_nat k + 1 - 1 / 2 ^ 48" by (simp only: e48_def)
    have k0: "(0::rat) \<le> of_nat k" by simp
    have "of_nat k = round_double (of_nat k)" using k20 by (simp add: round_double_nat)
    also have "\<dots> \<le> round_double (q * 20)" using k0 lo by (rule round_double_mono)
    finally have below: "of_nat k \<le> round_double (q * 20)" .
    have "0 \<le> q * 20" using k0 lo by linarith
    then have "round_double (q * 20) \<le> round_double (of_nat k + 1 - 1 / 2 ^ 48)"
      using hi by (rule round_double_mono)
    also have "\<dots> = of_nat k + 1 - 1 / 2 ^ 48" using k19 by (rule round_double_below)
    also have "\<dots> < of_nat k + 1" by simp
    finally have above: "round_double (q * 20) < of_nat k + 1" .
    have "\<lfloor>round_double (q * 20)\<rfloor> = int k"
      using below above by (simp add: floor_unique)
    then show ?thesis by (simp only: q_def x_def k_def)
  qed
qed

lemma scale_bar_eq:
  "0 < m \<Longrightarrow>
   scale_bar c m = Inr \<lfloor>round_double (round_double (of_nat c / of_nat m) * 20)\<rfloor>"
  by (simp add: scale_bar_def py_truediv_def py_float_mul_def py_int_def round_double_nonneg)


lemma scale_bar_bounds:
  assumes "0 < m" "c \<le> m"
  shows "\<exists>b. scale_bar c m = Inr b \<and> 0 \<le> b \<and> b \<le> 20"
  using assms scaled_bounds [of m c] by (simp add: scale_bar_eq)

lemma scale_bar_top: "0 < m \<Longrightarrow> scale_bar m m = Inr 20"
  using scaled_top [of m] by (simp only: scale_bar_eq)

lemma scale_bar_exact:
  "0 < m \<Longrightarrow> c \<le> m \<Longrightarrow> m < 2 ^ 47 \<Longrightarrow> scale_bar c m = Inr (int (20 * c div m))"
  using scaled_exact [of m c] by (simp only: scale_bar_eq)

section \<open>Properties of the renderer\<close>

subsection \<open>Maxima and bars\<close>

lemma py_max_eq: "xs \<noteq> [] \<Longrightarrow> py_max xs = Inr (Max (set xs))"
proof (cases xs)
  case Nil
  assume "xs \<noteq> []"
  with Nil show ?thesis by simp
next
  case (Cons a list)
  then show ?thesis using Max.set_eq_fold [of a list] by (simp add: py_max_def)
qed

lemma py_min_eq: "xs \<noteq> [] \<Longrightarrow> py_min xs = Inr (Min (set xs))"
proof (cases xs)
  case Nil
  assume "xs \<noteq> []"
  with Nil show ?thesis by simp
next
  case (Cons a list)
  then show ?thesis using Min.set_eq_fold [of a list] by (simp add: py_min_def)
qed

lemma bar_length_eq: "vals \<noteq> [] \<Longrightarrow> bar_length c vals = scale_bar c (Max (set vals))"
  by (simp add: bar_length_def py_max_eq)

lemma table_max:
  fixes t :: "('k \<times> nat) list"
  assumes "\<forall>e \<in> set t. 0 < snd e" and "(k, c) \<in> set t"
  shows "0 < Max (set (map snd t))" and "c \<le> Max (set (map snd t))"
proof -
  have c: "c \<in> set (map snd t)" using assms(2) by force
  then show "c \<le> Max (set (map snd t))" by simp
  moreover have "0 < c" using assms by force
  ultimately show "0 < Max (set (map snd t))" by linarith
qed

lemma shown_bar_bounds:
  assumes "\<forall>e \<in> set t. 0 < snd e" and "(k, c) \<in> set t"
  shows "\<exists>b. bar_length c (map snd t) = Inr b \<and> 0 \<le> b \<and> b \<le> 20"
proof -
  have "map snd t \<noteq> []" using assms(2) by auto
  then have "bar_length c (map snd t) = scale_bar c (Max (set (map snd t)))"
    by (rule bar_length_eq)
  then show ?thesis
    using scale_bar_bounds [OF table_max [OF assms]] by simp
qed

lemma desc_max:
  fixes t :: "('k \<times> nat) list"
  assumes "sorted_wrt (\<lambda>a b. snd b \<le> snd a) t" and "t \<noteq> []" and "0 < n"
  shows "Max (set (map snd (take n t))) = snd (hd t)"
proof -
  obtain e t' where t: "t = e # t'" using assms(2) by (cases t) auto
  obtain n' where n: "n = Suc n'" using assms(3) by (cases n) auto
  have "\<forall>x \<in> set (take n' t'). snd x \<le> snd e"
    using assms(1) by (auto simp add: t dest: in_set_takeD)
  then have "Max (insert (snd e) (snd ` set (take n' t'))) = snd e"
    by (intro Max_eqI) auto
  then show ?thesis by (simp add: t n)
qed

lemma desc_max_all:
  fixes t :: "('k \<times> nat) list"
  assumes "sorted_wrt (\<lambda>a b. snd b \<le> snd a) t" and "t \<noteq> []"
  shows "Max (set (map snd t)) = snd (hd t)"
  using desc_max [OF assms, of "length t"] assms(2) by simp

lemma spec_bar_length_eq: "spec_bar_length c xs = int (20 * c div Max (set xs))"
proof -
  have "(of_nat c / of_nat (Max (set xs)) * 20 :: rat) = of_nat (20 * c) / of_nat (Max (set xs))"
    by simp
  then show ?thesis
    by (simp only: spec_bar_length_def floor_divide_of_nat_eq)
qed

lemma Max_le_sum_list: "xs \<noteq> [] \<Longrightarrow> Max (set xs) \<le> sum_list xs" for xs :: "nat list"
proof -
  assume "xs \<noteq> []"
  then have "Max (set xs) \<in> set xs" by (intro Max_in) simp_all
  then show ?thesis by (simp add: member_le_sum_list)
qed

lemma exact_bar:
  fixes t :: "('k \<times> nat) list"
  assumes pos: "\<forall>e \<in> set t. 0 < snd e" and kc: "(k, c) \<in> set t"
    and small: "sum_list (map snd t) < 2 ^ 47"
  shows "bar_length c (map snd t) = Inr (spec_bar_length c (map snd t))"
proof -
  have ne: "map snd t \<noteq> []" using kc by auto
  have "Max (set (map snd t)) \<le> sum_list (map snd t)" using ne by (rule Max_le_sum_list)
  with small have m: "Max (set (map snd t)) < 2 ^ 47" by simp
  have "bar_length c (map snd t) = scale_bar c (Max (set (map snd t)))"
    using ne by (rule bar_length_eq)
  also have "\<dots> = Inr (int (20 * c div Max (set (map snd t))))"
    using table_max [OF pos kc] m by (intro scale_bar_exact)
  finally show ?thesis by (simp only: spec_bar_length_eq)
qed

lemma top_bar:
  fixes t :: "('k \<times> nat) list"
  assumes pos: "\<forall>e \<in> set t. 0 < snd e" and kc: "(k, c) \<in> set t" and top: "c = Max (set (map snd t))"
  shows "bar_length c (map snd t) = Inr 20"
proof -
  have ne: "map snd t \<noteq> []" using kc by auto
  have "bar_length c (map snd t) = scale_bar c (Max (set (map snd t)))"
    using ne by (rule bar_length_eq)
  also have "\<dots> = Inr 20"
    using table_max(1) [OF pos kc] unfolding top by (rule scale_bar_top)
  finally show ?thesis .
qed

lemma displayed_bar:
  fixes t :: "('k \<times> nat) list"
  assumes pos: "\<forall>e \<in> set t. 0 < snd e" and kc: "(k, c) \<in> set t"
  shows "\<exists>b. bar_length c (map snd t) = Inr b \<and> 0 \<le> b \<and> b \<le> 20 \<and> c \<le> Max (set (map snd t))"
  using shown_bar_bounds [OF pos kc] table_max(2) [OF pos kc] by fast

subsection \<open>Printing\<close>

lemma fst_and_then:
  "fst (and_then a b) = (case snd a of Some e \<Rightarrow> fst a | None \<Rightarrow> fst a @ fst b)"
  by (simp add: and_then_def split: option.split)


lemma and_then_lines: "l \<in> set (fst (and_then a b)) \<Longrightarrow> l \<in> set (fst a) \<or> l \<in> set (fst b)"
  by (auto simp add: fst_and_then split: option.splits)


lemma prints_simps [simp]: "fst (prints ls) = ls" "snd (prints ls) = None"
  by (simp_all add: prints_def)

lemma raises_simps [simp]: "fst (raises e) = []" "snd (raises e) = Some e"
  by (simp_all add: raises_def)

lemma bar_rows_lines:
  "l \<in> set (fst (bar_rows fmt mk vals items)) \<Longrightarrow>
   \<exists>k c b s. (k, c) \<in> set items \<and> bar_length c vals = Inr b \<and> fmt k = Inr s \<and> l = mk s (nat b) c"
proof (induction items)
  case Nil
  then show ?case by simp
next
  case (Cons kc items)
  obtain k c where kc: "kc = (k, c)" by (cases kc)
  show ?case
  proof (cases "bar_length c vals")
    case (Inl e)
    with Cons.prems show ?thesis by (simp add: kc)
  next
    case b: (Inr b)
    show ?thesis
    proof (cases "fmt k")
      case (Inl e)
      with Cons.prems b show ?thesis by (simp add: kc)
    next
      case s: (Inr s)
      from Cons.prems b s have "l = mk s (nat b) c \<or> l \<in> set (fst (bar_rows fmt mk vals items))"
        by (auto simp add: kc dest: and_then_lines)
      then show ?thesis
      proof
        assume "l = mk s (nat b) c"
        with b s show ?thesis by (auto simp add: kc)
      next
        assume "l \<in> set (fst (bar_rows fmt mk vals items))"
        then show ?thesis using Cons.IH by (auto simp add: kc)
      qed
    qed
  qed
qed


subsection \<open>The tables that the dashboard renders\<close>

lemma stats_positive:
  "\<forall>e \<in> set (table_or_empty (platforms (get_collection_stats coll))). 0 < snd e"
  "\<forall>e \<in> set (table_or_empty (years (get_collection_stats coll))). 0 < snd e"
  "\<forall>e \<in> set (table_or_empty (genres (get_collection_stats coll))). 0 < snd e"
proof -
  have "(\<forall>e \<in> set (table_or_empty (platforms (get_collection_stats coll))). 0 < snd e)
      \<and> (\<forall>e \<in> set (table_or_empty (years (get_collection_stats coll))). 0 < snd e)
      \<and> (\<forall>e \<in> set (table_or_empty (genres (get_collection_stats coll))). 0 < snd e)"
  proof (cases coll)
    case None
    then show ?thesis by (simp add: stats_empty empty_stats_def table_or_empty_def)
  next
    case (Some docs)
    show ?thesis
    proof (cases "docs = []")
      case True
      with Some show ?thesis by (simp add: stats_empty empty_stats_def table_or_empty_def)
    next
      case False
      have "\<forall>e \<in> set (fold bump (map platform_of docs) []). 0 < snd e"
        and "\<forall>e \<in> set (fold bump (map year_of docs) []). 0 < snd e"
        and "\<forall>e \<in> set (fold bump (map genre_of docs) []). 0 < snd e"
        using tally_positive by blast+
      with False Some show ?thesis
        by (simp add: stats_tables table_or_empty_def)
    qed
  qed
  then show
    "\<forall>e \<in> set (table_or_empty (platforms (get_collection_stats coll))). 0 < snd e"
    "\<forall>e \<in> set (table_or_empty (years (get_collection_stats coll))). 0 < snd e"
    "\<forall>e \<in> set (table_or_empty (genres (get_collection_stats coll))). 0 < snd e"
    by blast+
qed

lemma stats_descending:
  "sorted_wrt (\<lambda>a b. snd b \<le> snd a) (table_or_empty (platforms (get_collection_stats coll)))"
  "sorted_wrt (\<lambda>a b. snd b \<le> snd a) (table_or_empty (genres (get_collection_stats coll)))"
proof -
  have "sorted_wrt (\<lambda>a b. snd b \<le> snd a) (table_or_empty (platforms (get_collection_stats coll)))
      \<and> sorted_wrt (\<lambda>a b. snd b \<le> snd a) (table_or_empty (genres (get_collection_stats coll)))"
  proof (cases coll)
    case None
    then show ?thesis by (simp add: stats_empty empty_stats_def table_or_empty_def)
  next
    case (Some docs)
    show ?thesis
    proof (cases "docs = []")
      case True
      with Some show ?thesis by (simp add: stats_empty empty_stats_def table_or_empty_def)
    next
      case False
      with Some show ?thesis
        by (simp add: stats_tables table_or_empty_def desc_sorted)
    qed
  qed
  then show
    "sorted_wrt (\<lambda>a b. snd b \<le> snd a) (table_or_empty (platforms (get_collection_stats coll)))"
    "sorted_wrt (\<lambda>a b. snd b \<le> snd a) (table_or_empty (genres (get_collection_stats coll)))"
    by blast+
qed

lemma stats_sizes:
  "sum_list (map snd (table_or_empty (platforms (get_collection_stats (Some docs))))) = length docs
   \<and> sum_list (map snd (table_or_empty (years (get_collection_stats (Some docs))))) = length docs
   \<and> sum_list (map snd (table_or_empty (genres (get_collection_stats (Some docs))))) = length docs"
proof (cases "docs = []")
  case True
  then show ?thesis
    by (simp add: stats_empty empty_stats_def table_or_empty_def)
next
  case False
  then show ?thesis
    by (simp add: stats_tables table_or_empty_def desc_sum items_sum tally_sum)
qed

lemma recent_years_subset: "set (recent_years t) \<subseteq> set t"
  by (auto simp add: recent_years_def Let_def dest: in_set_dropD)

subsection \<open>Sections\<close>






lemma summary_section_eq:
  "summary_section ys ps gs pubs =
     (if year_values ys = [] then prints []
      else prints [SummaryTitle, Dashes,
        YearRange (Min (set (year_values ys))) (Max (set (year_values ys))),
        UniquePlatforms (length ps), UniqueGenres (length gs), UniquePublishers (length pubs)])"
  by (auto simp add: summary_section_def py_min_eq py_max_eq year_values_def)


lemma platform_section_lines:
  assumes "l \<in> set (fst (platform_section t))"
  shows "l = PlatformTitle \<or> l = Dashes \<or>
    (\<exists>k c b s. (k, c) \<in> set (take 10 t) \<and> bar_length c (map snd t) = Inr b \<and> l = PlatformBar s (nat b) c)"
proof (cases "t = []")
  case True
  with assms show ?thesis by (simp add: platform_section_def)
next
  case False
  with assms have "l \<in> set [PlatformTitle, Dashes]
      \<or> l \<in> set (fst (bar_rows format_s PlatformBar (map snd t) (take 10 t)))"
    using and_then_lines [of l "prints [PlatformTitle, Dashes]"] by (simp add: platform_section_def)
  then show ?thesis using bar_rows_lines [of l format_s PlatformBar "map snd t" "take 10 t"]
    by auto
qed

lemma genre_section_lines:
  assumes "l \<in> set (fst (genre_section t))"
  shows "l = GenreTitle \<or> l = Dashes \<or>
    (\<exists>k c b s. (k, c) \<in> set (take 10 t) \<and> bar_length c (map snd t) = Inr b \<and> l = GenreBar s (nat b) c)"
proof (cases "t = []")
  case True
  with assms show ?thesis by (simp add: genre_section_def)
next
  case False
  with assms have "l \<in> set [GenreTitle, Dashes]
      \<or> l \<in> set (fst (bar_rows format_s GenreBar (map snd t) (take 10 t)))"
    using and_then_lines [of l "prints [GenreTitle, Dashes]"] by (simp add: genre_section_def)
  then show ?thesis using bar_rows_lines [of l format_s GenreBar "map snd t" "take 10 t"]
    by auto
qed

lemma year_section_lines:
  assumes "l \<in> set (fst (year_section t))"
  shows "l = YearTitle \<or> l = Dashes \<or>
    (\<exists>k c b s. (k, c) \<in> set (recent_years t) \<and> bar_length c (map snd t) = Inr b \<and> l = YearBar s (nat b) c)"
proof (cases "t = []")
  case True
  with assms show ?thesis by (simp add: year_section_def)
next
  case False
  with assms have "l \<in> set [YearTitle, Dashes]
      \<or> l \<in> set (fst (bar_rows format_str YearBar (map snd t) (recent_years t)))"
    using and_then_lines [of l "prints [YearTitle, Dashes]"] by (simp add: year_section_def)
  then show ?thesis using bar_rows_lines [of l format_str YearBar "map snd t" "recent_years t"]
    by auto
qed

lemma publisher_section_lines:
  "l \<in> set (fst (publisher_section t)) \<Longrightarrow>
   l = PublisherTitle \<or> l = Dashes \<or> (\<exists>s c. l = PublisherLine s c)"
  by (auto simp add: publisher_section_def split: if_splits)



lemma summary_lines:
  assumes "l \<in> set (fst (summary_section ys ps gs pubs))"
  shows "year_values ys \<noteq> []"
    and "l = SummaryTitle \<or> l = Dashes
      \<or> l = YearRange (Min (set (year_values ys))) (Max (set (year_values ys)))
      \<or> l = UniquePlatforms (length ps) \<or> l = UniqueGenres (length gs)
      \<or> l = UniquePublishers (length pubs)"
  using assms by (auto simp add: summary_section_eq split: if_splits)

subsection \<open>The dashboard\<close>

lemma and_then_prints: "and_then (prints ls) b = (ls @ fst b, snd b)"
  by (simp add: and_then_def prints_def)

lemma text_dashboard_None: "text_dashboard None = ([Rule, Title, Rule, NoData], None)"
  by (simp add: text_dashboard_def stats_empty no_keys_def empty_stats_def and_then_def prints_def)

lemma text_dashboard_Some:
  "text_dashboard (Some docs) =
     and_then (prints [Rule, Title, Rule, StatsTitle, Dashes, TotalGames (length docs)])
       (and_then (platform_section (table_or_empty (platforms (get_collection_stats (Some docs)))))
         (and_then (genre_section (table_or_empty (genres (get_collection_stats (Some docs)))))
           (and_then (year_section (table_or_empty (years (get_collection_stats (Some docs)))))
             (and_then (publisher_section (table_or_empty (publishers (get_collection_stats (Some docs)))))
               (and_then
                 (summary_section (table_or_empty (years (get_collection_stats (Some docs))))
                   (table_or_empty (platforms (get_collection_stats (Some docs))))
                   (table_or_empty (genres (get_collection_stats (Some docs))))
                   (table_or_empty (publishers (get_collection_stats (Some docs)))))
                 (prints [Rule, FooterNote, Rule]))))))"
proof -
  have t: "total_games (get_collection_stats (Some docs)) = Some (length docs)"
    by (cases "docs = []") (simp_all add: stats_tables stats_empty)
  then have nk: "\<not> no_keys (get_collection_stats (Some docs))"
    by (simp add: no_keys_def)
  show ?thesis
    unfolding text_dashboard_def Let_def
    by (simp only: nk t if_False total_or_zero_def option.case and_then_prints fst_conv snd_conv
        append_Cons append_Nil)
qed

lemma and_then_linesE:
  assumes "l \<in> set (fst (and_then a b))"
  obtains "l \<in> set (fst a)" | "l \<in> set (fst b)"
  using and_then_lines [OF assms] by fast

lemma text_dashboard_lines:
  assumes "l \<in> set (fst (text_dashboard coll))"
  shows "l \<in> {Rule, Title, NoData, StatsTitle, Dashes, FooterNote}
    \<or> (\<exists>n. l = TotalGames n)
    \<or> l \<in> set (fst (platform_section (table_or_empty (platforms (get_collection_stats coll)))))
    \<or> l \<in> set (fst (genre_section (table_or_empty (genres (get_collection_stats coll)))))
    \<or> l \<in> set (fst (year_section (table_or_empty (years (get_collection_stats coll)))))
    \<or> l \<in> set (fst (publisher_section (table_or_empty (publishers (get_collection_stats coll)))))
    \<or> l \<in> set (fst (summary_section (table_or_empty (years (get_collection_stats coll)))
          (table_or_empty (platforms (get_collection_stats coll)))
          (table_or_empty (genres (get_collection_stats coll)))
          (table_or_empty (publishers (get_collection_stats coll)))))"
proof (cases coll)
  case None
  with assms have "l = Rule \<or> l = Title \<or> l = NoData"
    by (auto simp add: text_dashboard_None)
  then show ?thesis by fast
next
  case (Some docs)
  from assms show ?thesis
    unfolding Some text_dashboard_Some
    by (elim and_then_linesE) auto
qed

lemma and_then_ok:
  assumes "snd (and_then a b) = None"
  shows "snd a = None" and "snd b = None" and "fst (and_then a b) = fst a @ fst b"
  using assms by (simp_all add: and_then_def split: option.splits)



lemma dashboard_platform_bar:
  assumes "PlatformBar s b c \<in> set (fst (text_dashboard coll))"
  shows "\<exists>k b'. (k, c) \<in> set (take 10 (table_or_empty (platforms (get_collection_stats coll))))
    \<and> bar_length c (map snd (table_or_empty (platforms (get_collection_stats coll)))) = Inr b'
    \<and> b = nat b'"
proof -
  from text_dashboard_lines [OF assms]
  consider "PlatformBar s b c \<in> set (fst (platform_section (table_or_empty (platforms (get_collection_stats coll)))))"
    | "PlatformBar s b c \<in> set (fst (genre_section (table_or_empty (genres (get_collection_stats coll)))))"
    | "PlatformBar s b c \<in> set (fst (year_section (table_or_empty (years (get_collection_stats coll)))))"
    | "PlatformBar s b c \<in> set (fst (publisher_section (table_or_empty (publishers (get_collection_stats coll)))))"
    | "PlatformBar s b c \<in> set (fst (summary_section (table_or_empty (years (get_collection_stats coll)))
          (table_or_empty (platforms (get_collection_stats coll)))
          (table_or_empty (genres (get_collection_stats coll)))
          (table_or_empty (publishers (get_collection_stats coll)))))"
    by auto
  then show ?thesis
  proof cases
    case 1
    from platform_section_lines [OF this] show ?thesis by auto
  next
    case 2
    from genre_section_lines [OF this] show ?thesis by auto
  next
    case 3
    from year_section_lines [OF this] show ?thesis by auto
  next
    case 4
    from publisher_section_lines [OF this] show ?thesis by auto
  next
    case 5
    from summary_lines(2) [OF this] show ?thesis by auto
  qed
qed

lemma dashboard_genre_bar:
  assumes "GenreBar s b c \<in> set (fst (text_dashboard coll))"
  shows "\<exists>k b'. (k, c) \<in> set (take 10 (table_or_empty (genres (get_collection_stats coll))))
    \<and> bar_length c (map snd (table_or_empty (genres (get_collection_stats coll)))) = Inr b'
    \<and> b = nat b'"
proof -
  from text_dashboard_lines [OF assms]
  consider "GenreBar s b c \<in> set (fst (platform_section (table_or_empty (platforms (get_collection_stats coll)))))"
    | "GenreBar s b c \<in> set (fst (genre_section (table_or_empty (genres (get_collection_stats coll)))))"
    | "GenreBar s b c \<in> set (fst (year_section (table_or_empty (years (get_collection_stats coll)))))"
    | "GenreBar s b c \<in> set (fst (publisher_section (table_or_empty (publishers (get_collection_stats coll)))))"
    | "GenreBar s b c \<in> set (fst (summary_section (table_or_empty (years (get_collection_stats coll)))
          (table_or_empty (platforms (get_collection_stats coll)))
          (table_or_empty (genres (get_collection_stats coll)))
          (table_or_empty (publishers (get_collection_stats coll)))))"
    by auto
  then show ?thesis
  proof cases
    case 1
    from platform_section_lines [OF this] show ?thesis by auto
  next
    case 2
    from genre_section_lines [OF this] show ?thesis by auto
  next
    case 3
    from year_section_lines [OF this] show ?thesis by auto
  next
    case 4
    from publisher_section_lines [OF this] show ?thesis by auto
  next
    case 5
    from summary_lines(2) [OF this] show ?thesis by auto
  qed
qed

lemma dashboard_year_bar:
  assumes "YearBar s b c \<in> set (fst (text_dashboard coll))"
  shows "\<exists>k b'. (k, c) \<in> set (recent_years (table_or_empty (years (get_collection_stats coll))))
    \<and> bar_length c (map snd (table_or_empty (years (get_collection_stats coll)))) = Inr b'
    \<and> b = nat b'"
proof -
  from text_dashboard_lines [OF assms]
  consider "YearBar s b c \<in> set (fst (platform_section (table_or_empty (platforms (get_collection_stats coll)))))"
    | "YearBar s b c \<in> set (fst (genre_section (table_or_empty (genres (get_collection_stats coll)))))"
    | "YearBar s b c \<in> set (fst (year_section (table_or_empty (years (get_collection_stats coll)))))"
    | "YearBar s b c \<in> set (fst (publisher_section (table_or_empty (publishers (get_collection_stats coll)))))"
    | "YearBar s b c \<in> set (fst (summary_section (table_or_empty (years (get_collection_stats coll)))
          (table_or_empty (platforms (get_collection_stats coll)))
          (table_or_empty (genres (get_collection_stats coll)))
          (table_or_empty (publishers (get_collection_stats coll)))))"
    by auto
  then show ?thesis
  proof cases
    case 1
    from platform_section_lines [OF this] show ?thesis by auto
  next
    case 2
    from genre_section_lines [OF this] show ?thesis by auto
  next
    case 3
    from year_section_lines [OF this] show ?thesis by auto
  next
    case 4
    from publisher_section_lines [OF this] show ?thesis by auto
  next
    case 5
    from summary_lines(2) [OF this] show ?thesis by auto
  qed
qed

subsection \<open>The example collections\<close>

lemma snes_genesis_tables:
  "table_or_empty (platforms (get_collection_stats (Some snes_genesis))) =
     [(PStr ''SNES'', 2), (PStr ''Genesis'', 1)]"
  "table_or_empty (genres (get_collection_stats (Some snes_genesis))) = [(PStr ''Unknown'', 3)]"
  "table_or_empty (years (get_collection_stats (Some snes_genesis))) = [(''Unknown'', 3)]"
  by code_simp+

lemma snes_genesis_dashboard:
  "text_dashboard (Some snes_genesis) =
     ([Rule, Title, Rule, StatsTitle, Dashes, TotalGames 3, PlatformTitle, Dashes,
       PlatformBar ''SNES'' 20 2, PlatformBar ''Genesis'' 10 1, GenreTitle, Dashes,
       GenreBar ''Unknown'' 20 3, YearTitle, Dashes, YearBar ''Unknown'' 20 3, PublisherTitle,
       Dashes, PublisherLine ''Unknown'' 3, Rule, FooterNote, Rule], None)"
  by code_simp

lemma snes_genesis_spec_bars:
  "spec_bar_length 2 [2, 1] = 20" "spec_bar_length 1 [2, 1] = 10" "spec_bar_length 3 [3] = 20"
  by code_simp+




section \<open>Bar scaling\<close>

text \<open>
  C1, as the code has it: every bar is scaled against the largest count of the whole table
  of its section. In the platform and the genre section, whose tables are in descending
  order of count, that is the largest count among the ten entries displayed: each displayed
  entry's bar is \<open>floor(count / maxCountInDisplayedSet * 20)\<close>, and the top entry has a bar
  of exactly 20. In the year section each displayed entry's bar is \<open>floor(count / m * 20)\<close>
  for the largest count \<open>m\<close> of the whole year table, so that a displayed year has a bar of
  20 when its count is \<open>m\<close>. The bars that the dashboard prints have these lengths. The
  floating-point computation of the code gives these exact values for collections of fewer
  than \<open>2\<^sup>4\<^sup>7\<close> records.
\<close>

theorem bars_scaled_by_table_maximum:
  assumes "length docs < 2 ^ 47"
  shows
  "(\<forall>(k, c) \<in> set (take 10 (table_or_empty (platforms (get_collection_stats (Some docs))))).
      bar_length c (map snd (table_or_empty (platforms (get_collection_stats (Some docs))))) =
        Inr (spec_bar_length c
          (map snd (take 10 (table_or_empty (platforms (get_collection_stats (Some docs))))))))
   \<and> (table_or_empty (platforms (get_collection_stats (Some docs))) \<noteq> [] \<longrightarrow>
        bar_length (snd (hd (table_or_empty (platforms (get_collection_stats (Some docs))))))
          (map snd (table_or_empty (platforms (get_collection_stats (Some docs))))) = Inr 20)
   \<and> (\<forall>(k, c) \<in> set (take 10 (table_or_empty (genres (get_collection_stats (Some docs))))).
      bar_length c (map snd (table_or_empty (genres (get_collection_stats (Some docs))))) =
        Inr (spec_bar_length c
          (map snd (take 10 (table_or_empty (genres (get_collection_stats (Some docs))))))))
   \<and> (table_or_empty (genres (get_collection_stats (Some docs))) \<noteq> [] \<longrightarrow>
        bar_length (snd (hd (table_or_empty (genres (get_collection_stats (Some docs))))))
          (map snd (table_or_empty (genres (get_collection_stats (Some docs))))) = Inr 20)
   \<and> (\<forall>(k, c) \<in> set (recent_years (table_or_empty (years (get_collection_stats (Some docs))))).
      bar_length c (map snd (table_or_empty (years (get_collection_stats (Some docs))))) =
        Inr (spec_bar_length c (map snd (table_or_empty (years (get_collection_stats (Some docs)))))))
   \<and> (\<forall>(k, c) \<in> set (recent_years (table_or_empty (years (get_collection_stats (Some docs))))).
      c = Max (set (map snd (table_or_empty (years (get_collection_stats (Some docs)))))) \<longrightarrow>
      bar_length c (map snd (table_or_empty (years (get_collection_stats (Some docs))))) = Inr 20)
   \<and> (\<forall>l \<in> set (fst (text_dashboard (Some docs))). \<forall>s b c.
        (l = PlatformBar s b c \<longrightarrow>
           int b = spec_bar_length c
             (map snd (take 10 (table_or_empty (platforms (get_collection_stats (Some docs)))))))
        \<and> (l = GenreBar s b c \<longrightarrow>
           int b = spec_bar_length c
             (map snd (take 10 (table_or_empty (genres (get_collection_stats (Some docs)))))))
        \<and> (l = YearBar s b c \<longrightarrow>
           int b = spec_bar_length c
             (map snd (table_or_empty (years (get_collection_stats (Some docs)))))))"
proof -
  define ps where "ps = table_or_empty (platforms (get_collection_stats (Some docs)))"
  define gs where "gs = table_or_empty (genres (get_collection_stats (Some docs)))"
  define ys where "ys = table_or_empty (years (get_collection_stats (Some docs)))"
  note defs = ps_def gs_def ys_def
  have pos: "\<forall>e \<in> set ps. 0 < snd e" "\<forall>e \<in> set gs. 0 < snd e" "\<forall>e \<in> set ys. 0 < snd e"
    unfolding defs by (rule stats_positive)+
  have desc: "sorted_wrt (\<lambda>a b. snd b \<le> snd a) ps" "sorted_wrt (\<lambda>a b. snd b \<le> snd a) gs"
    unfolding defs by (rule stats_descending)+
  have small: "sum_list (map snd ps) < 2 ^ 47" "sum_list (map snd gs) < 2 ^ 47"
    "sum_list (map snd ys) < 2 ^ 47"
    using assms stats_sizes [of docs] unfolding defs by simp_all
  have shown: "bar_length c (map snd t) = Inr (spec_bar_length c (map snd (take 10 t)))"
    if "(k, c) \<in> set (take 10 t)" and t: "\<forall>e \<in> set t. 0 < snd e"
      "sorted_wrt (\<lambda>a b. snd b \<le> snd a) t" "sum_list (map snd t) < 2 ^ 47"
    for t :: "(pyval \<times> nat) list" and k c
  proof -
    from that(1) have kc: "(k, c) \<in> set t" by (rule in_set_takeD)
    then have ne: "t \<noteq> []" by auto
    have "Max (set (map snd (take 10 t))) = Max (set (map snd t))"
      using desc_max [OF t(2) ne, of 10] desc_max_all [OF t(2) ne] by simp
    then have "spec_bar_length c (map snd (take 10 t)) = spec_bar_length c (map snd t)"
      by (simp only: spec_bar_length_eq)
    with exact_bar [OF t(1) kc t(3)] show ?thesis by simp
  qed
  have first: "bar_length (snd (hd t)) (map snd t) = Inr 20"
    if "t \<noteq> []" and t: "\<forall>e \<in> set t. 0 < snd e" "sorted_wrt (\<lambda>a b. snd b \<le> snd a) t"
    for t :: "(pyval \<times> nat) list"
  proof -
    from that(1) have "(fst (hd t), snd (hd t)) \<in> set t" by simp
    from top_bar [OF t(1) this] desc_max_all [OF t(2) that(1)] show ?thesis by simp
  qed
  have P: "\<forall>(k, c) \<in> set (take 10 ps).
      bar_length c (map snd ps) = Inr (spec_bar_length c (map snd (take 10 ps)))"
    using shown [OF _ pos(1) desc(1) small(1)] by fast
  have P1: "ps \<noteq> [] \<longrightarrow> bar_length (snd (hd ps)) (map snd ps) = Inr 20"
    using first [OF _ pos(1) desc(1)] by fast
  have G: "\<forall>(k, c) \<in> set (take 10 gs).
      bar_length c (map snd gs) = Inr (spec_bar_length c (map snd (take 10 gs)))"
    using shown [OF _ pos(2) desc(2) small(2)] by fast
  have G1: "gs \<noteq> [] \<longrightarrow> bar_length (snd (hd gs)) (map snd gs) = Inr 20"
    using first [OF _ pos(2) desc(2)] by fast
  have Y: "\<forall>(k, c) \<in> set (recent_years ys).
      bar_length c (map snd ys) = Inr (spec_bar_length c (map snd ys))"
  proof (intro ballI, simp only: split_paired_all case_prod_conv)
    fix k c
    assume "(k, c) \<in> set (recent_years ys)"
    then have "(k, c) \<in> set ys" using recent_years_subset [of ys] by fast
    from exact_bar [OF pos(3) this small(3)]
    show "bar_length c (map snd ys) = Inr (spec_bar_length c (map snd ys))" .
  qed
  have Y1: "\<forall>(k, c) \<in> set (recent_years ys).
      c = Max (set (map snd ys)) \<longrightarrow> bar_length c (map snd ys) = Inr 20"
  proof (intro ballI, simp only: split_paired_all case_prod_conv, intro impI)
    fix k c
    assume "(k, c) \<in> set (recent_years ys)" and top: "c = Max (set (map snd ys))"
    then have "(k, c) \<in> set ys" using recent_years_subset [of ys] by fast
    from top_bar [OF pos(3) this top]
    show "bar_length c (map snd ys) = Inr 20" .
  qed
  have nonneg: "int (nat (spec_bar_length c xs)) = spec_bar_length c xs" for c xs
    by (simp add: spec_bar_length_eq)
  have L: "\<forall>l \<in> set (fst (text_dashboard (Some docs))). \<forall>s b c.
        (l = PlatformBar s b c \<longrightarrow> int b = spec_bar_length c (map snd (take 10 ps)))
        \<and> (l = GenreBar s b c \<longrightarrow> int b = spec_bar_length c (map snd (take 10 gs)))
        \<and> (l = YearBar s b c \<longrightarrow> int b = spec_bar_length c (map snd ys))"
  proof (intro ballI allI conjI impI)
    fix l s b c
    assume l: "l \<in> set (fst (text_dashboard (Some docs)))"
    {
      assume "l = PlatformBar s b c"
      with l have "PlatformBar s b c \<in> set (fst (text_dashboard (Some docs)))" by simp
      from dashboard_platform_bar [OF this] obtain k b' where kc: "(k, c) \<in> set (take 10 ps)"
        and b': "bar_length c (map snd ps) = Inr b'" and b: "b = nat b'"
        unfolding defs by fast
      from shown [OF kc pos(1) desc(1) small(1)] b'
      have "b' = spec_bar_length c (map snd (take 10 ps))" by simp
      with b nonneg show "int b = spec_bar_length c (map snd (take 10 ps))" by simp
    }
    {
      assume "l = GenreBar s b c"
      with l have "GenreBar s b c \<in> set (fst (text_dashboard (Some docs)))" by simp
      from dashboard_genre_bar [OF this] obtain k b' where kc: "(k, c) \<in> set (take 10 gs)"
        and b': "bar_length c (map snd gs) = Inr b'" and b: "b = nat b'"
        unfolding defs by fast
      from shown [OF kc pos(2) desc(2) small(2)] b'
      have "b' = spec_bar_length c (map snd (take 10 gs))" by simp
      with b nonneg show "int b = spec_bar_length c (map snd (take 10 gs))" by simp
    }
    {
      assume "l = YearBar s b c"
      with l have "YearBar s b c \<in> set (fst (text_dashboard (Some docs)))" by simp
      from dashboard_year_bar [OF this] obtain k b' where kc: "(k, c) \<in> set (recent_years ys)"
        and b': "bar_length c (map snd ys) = Inr b'" and b: "b = nat b'"
        unfolding defs by fast
      from kc have "(k, c) \<in> set ys" using recent_years_subset [of ys] by fast
      from exact_bar [OF pos(3) this small(3)] b'
      have "b' = spec_bar_length c (map snd ys)" by simp
      with b nonneg show "int b = spec_bar_length c (map snd ys)" by simp
    }
  qed
  from P P1 G G1 Y Y1 L show ?thesis
    unfolding defs by (intro conjI)
qed

theorem bars_scaled_by_table_maximum_witness:
  "length snes_genesis < 2 ^ 47
   \<and> table_or_empty (platforms (get_collection_stats (Some snes_genesis))) =
       [(PStr ''SNES'', 2), (PStr ''Genesis'', 1)]
   \<and> bar_length 2 [2, 1] = Inr 20
   \<and> bar_length 1 [2, 1] = Inr 10
   \<and> spec_bar_length 1 [2, 1] = 10
   \<and> recent_years (table_or_empty (years (get_collection_stats (Some snes_genesis)))) = [(''Unknown'', 3)]
   \<and> bar_length 3 [3] = Inr 20
   \<and> PlatformBar ''Genesis'' 10 1 \<in> set (fst (text_dashboard (Some snes_genesis)))"
proof -
  have len: "length snes_genesis < 2 ^ 47" by (simp add: snes_genesis_def)
  have ry: "recent_years [(''Unknown'', 3)] = [(''Unknown'', 3)]"
    by (simp add: recent_years_def sorted_items_def)
  from bars_scaled_by_table_maximum [OF len] len ry snes_genesis_spec_bars show ?thesis
    by (simp add: snes_genesis_tables snes_genesis_dashboard)
qed

text \<open>
  C1 as stated fails in the year section: of twelve records, two of the year 1990 and one
  of each year from 1991 to 2000, the ten years displayed have count 1, which is the largest
  count displayed, and a bar of 10, not of 20.
\<close>

theorem year_bars_below_twenty:
  "YearBar ''1991'' 10 1 \<in> set (fst (text_dashboard (Some twelve_years)))
   \<and> (''1991'', 1) \<in> set (recent_years (table_or_empty (years (get_collection_stats (Some twelve_years)))))
   \<and> spec_bar_length 1
        (map snd (recent_years (table_or_empty (years (get_collection_stats (Some twelve_years)))))) = 20"
  by code_simp

text \<open>
  C10: for the statistics of every collection, each bar length computed for an entry
  displayed in the platform, genre or year section lies between 0 and 20, the count of the
  entry being at most the largest count of the table, which is the divisor; and every bar
  that the dashboard prints has at most 20 characters.
\<close>

theorem bar_lengths_within_twenty:
  "(\<forall>(k, c) \<in> set (take 10 (table_or_empty (platforms (get_collection_stats coll)))).
      \<exists>b. bar_length c (map snd (table_or_empty (platforms (get_collection_stats coll)))) = Inr b
        \<and> 0 \<le> b \<and> b \<le> 20
        \<and> c \<le> Max (set (map snd (table_or_empty (platforms (get_collection_stats coll))))))
   \<and> (\<forall>(k, c) \<in> set (take 10 (table_or_empty (genres (get_collection_stats coll)))).
      \<exists>b. bar_length c (map snd (table_or_empty (genres (get_collection_stats coll)))) = Inr b
        \<and> 0 \<le> b \<and> b \<le> 20
        \<and> c \<le> Max (set (map snd (table_or_empty (genres (get_collection_stats coll))))))
   \<and> (\<forall>(k, c) \<in> set (recent_years (table_or_empty (years (get_collection_stats coll)))).
      \<exists>b. bar_length c (map snd (table_or_empty (years (get_collection_stats coll)))) = Inr b
        \<and> 0 \<le> b \<and> b \<le> 20
        \<and> c \<le> Max (set (map snd (table_or_empty (years (get_collection_stats coll))))))
   \<and> (\<forall>l \<in> set (fst (text_dashboard coll)). \<forall>s b c.
        l = PlatformBar s b c \<or> l = GenreBar s b c \<or> l = YearBar s b c \<longrightarrow> b \<le> 20)"
proof -
  define ps where "ps = table_or_empty (platforms (get_collection_stats coll))"
  define gs where "gs = table_or_empty (genres (get_collection_stats coll))"
  define ys where "ys = table_or_empty (years (get_collection_stats coll))"
  note defs = ps_def gs_def ys_def
  have pos: "\<forall>e \<in> set ps. 0 < snd e" "\<forall>e \<in> set gs. 0 < snd e" "\<forall>e \<in> set ys. 0 < snd e"
    unfolding defs by (rule stats_positive)+
  have p: "\<exists>b. bar_length c (map snd ps) = Inr b \<and> 0 \<le> b \<and> b \<le> 20 \<and> c \<le> Max (set (map snd ps))"
    if "(k, c) \<in> set (take 10 ps)" for k c
    using displayed_bar [OF pos(1) in_set_takeD [OF that]] .
  have g: "\<exists>b. bar_length c (map snd gs) = Inr b \<and> 0 \<le> b \<and> b \<le> 20 \<and> c \<le> Max (set (map snd gs))"
    if "(k, c) \<in> set (take 10 gs)" for k c
    using displayed_bar [OF pos(2) in_set_takeD [OF that]] .
  have y: "\<exists>b. bar_length c (map snd ys) = Inr b \<and> 0 \<le> b \<and> b \<le> 20 \<and> c \<le> Max (set (map snd ys))"
    if "(k, c) \<in> set (recent_years ys)" for k c
  proof -
    from that have "(k, c) \<in> set ys" using recent_years_subset [of ys] by fast
    from displayed_bar [OF pos(3) this] show ?thesis .
  qed
  have lines: "b \<le> 20"
    if l: "l \<in> set (fst (text_dashboard coll))"
      and b: "l = PlatformBar s b c \<or> l = GenreBar s b c \<or> l = YearBar s b c" for l s b c
    using b
  proof (elim disjE)
    assume "l = PlatformBar s b c"
    with l have "PlatformBar s b c \<in> set (fst (text_dashboard coll))" by simp
    from dashboard_platform_bar [OF this] obtain k b' where "(k, c) \<in> set (take 10 ps)"
      and "bar_length c (map snd ps) = Inr b'" and "b = nat b'"
      unfolding defs by fast
    with p [of k c] show ?thesis by auto
  next
    assume "l = GenreBar s b c"
    with l have "GenreBar s b c \<in> set (fst (text_dashboard coll))" by simp
    from dashboard_genre_bar [OF this] obtain k b' where "(k, c) \<in> set (take 10 gs)"
      and "bar_length c (map snd gs) = Inr b'" and "b = nat b'"
      unfolding defs by fast
    with g [of k c] show ?thesis by auto
  next
    assume "l = YearBar s b c"
    with l have "YearBar s b c \<in> set (fst (text_dashboard coll))" by simp
    from dashboard_year_bar [OF this] obtain k b' where "(k, c) \<in> set (recent_years ys)"
      and "bar_length c (map snd ys) = Inr b'" and "b = nat b'"
      unfolding defs by fast
    with y [of k c] show ?thesis by auto
  qed
  have P: "\<forall>(k, c) \<in> set (take 10 ps).
      \<exists>b. bar_length c (map snd ps) = Inr b \<and> 0 \<le> b \<and> b \<le> 20 \<and> c \<le> Max (set (map snd ps))"
    using p by fast
  have G: "\<forall>(k, c) \<in> set (take 10 gs).
      \<exists>b. bar_length c (map snd gs) = Inr b \<and> 0 \<le> b \<and> b \<le> 20 \<and> c \<le> Max (set (map snd gs))"
    using g by fast
  have Y: "\<forall>(k, c) \<in> set (recent_years ys).
      \<exists>b. bar_length c (map snd ys) = Inr b \<and> 0 \<le> b \<and> b \<le> 20 \<and> c \<le> Max (set (map snd ys))"
    using y by fast
  have L: "\<forall>l \<in> set (fst (text_dashboard coll)). \<forall>s b c.
      l = PlatformBar s b c \<or> l = GenreBar s b c \<or> l = YearBar s b c \<longrightarrow> b \<le> 20"
    using lines by fast
  from P G Y L show ?thesis
    unfolding defs by (intro conjI)
qed

theorem bar_lengths_within_twenty_witness:
  "table_or_empty (platforms (get_collection_stats (Some snes_genesis))) =
     [(PStr ''SNES'', 2), (PStr ''Genesis'', 1)]
   \<and> (\<exists>b. bar_length 1 [2, 1] = Inr b \<and> 0 \<le> b \<and> b \<le> 20)
   \<and> (\<exists>b. bar_length 3 [3] = Inr b \<and> 0 \<le> b \<and> b \<le> 20)
   \<and> PlatformBar ''Genesis'' 10 1 \<in> set (fst (text_dashboard (Some snes_genesis)))
   \<and> (10::nat) \<le> 20"
  using bar_lengths_within_twenty [of "Some snes_genesis"]
  by (simp add: snes_genesis_tables snes_genesis_dashboard)




section \<open>Rendering an empty collection\<close>

text \<open>
  C2, as the code has it: when the collection exists and holds no record, the statistics
  hold the total 0 and no table, and the dashboard prints its banner, the statistics
  heading with the line of the total count 0, and its closing banner; no bar-chart
  section, publisher list or summary is printed, and neither is the notice that no data is
  available. That notice is printed, with nothing after it, when there is no collection.
\<close>

theorem empty_collection_prints_total:
  "text_dashboard (Some []) =
     ([Rule, Title, Rule, StatsTitle, Dashes, TotalGames 0, Rule, FooterNote, Rule], None)
   \<and> text_dashboard None = ([Rule, Title, Rule, NoData], None)"
  by code_simp

text \<open>
  C2 as stated fails on the empty collection: the line of the total count is printed and
  the notice is not.
\<close>

theorem empty_collection_no_notice:
  "TotalGames 0 \<in> set (fst (text_dashboard (Some [])))
   \<and> NoData \<notin> set (fst (text_dashboard (Some [])))"
  by code_simp

section \<open>Years are counted by their string\<close>



section \<open>Search results\<close>



section \<open>Counts of the frequency tables\<close>







section \<open>The year range of the summary\<close>




end
